theory Spec2Isabelle
  imports Main "HOL-Library.Sublist"
begin

text \<open>
  A model of the Cinnamon applet \<^verbatim>\<open>applet.js\<close>, which runs \<^verbatim>\<open>ping\<close> as a subprocess and
  shows the latest round-trip time in a panel label: the regular expression that reads a
  line of output, the async generator \<^verbatim>\<open>ping\<close> that owns the subprocess and shuts it
  down, and the applet object that starts and stops the generator.
\<close>

section \<open>Reading a line of output\<close>

text \<open>
  \<^verbatim>\<open>/\btime=(\d+(?:\.\d+))\s*ms\b/.exec(line)\<close> is modelled by a backtracking matcher in
  continuation-passing style. A matcher gets the character before the current position
  (none at the start of the line) and the rest of the line, and hands both to its
  continuation when it has matched. Lines are strings of 8-bit characters, so the
  members of \<^verbatim>\<open>\s\<close> are the ASCII white space characters and the no-break space.

  \<^item> \<open>lit\<close> matches literal characters;
  \<^item> \<open>star P\<close> is a greedy \<^verbatim>\<open>*\<close> over a character class: it takes a character when it
    can and gives it back when the rest of the pattern does not match after it;
  \<^item> \<open>plus1 P\<close> is \<^verbatim>\<open>+\<close>;
  \<^item> \<open>wordb\<close> is \<^verbatim>\<open>\b\<close>;
  \<^item> \<open>capture\<close> is a capturing group: its continuation gets the text the group matched;
  \<^item> \<open>exec\<close> tries the pattern at every position from the left, as \<^verbatim>\<open>RegExp.exec\<close>
    does, and returns the first match.

  The generator yields \<^verbatim>\<open>m ? m[1] : null\<close>: the text of group 1, or null.
\<close>

definition is_digit :: "char \<Rightarrow> bool" where
  "is_digit c = (48 \<le> (of_char c :: nat) \<and> (of_char c :: nat) \<le> 57)"

definition is_word :: "char \<Rightarrow> bool" where
  "is_word c =
     ((48 \<le> (of_char c :: nat) \<and> (of_char c :: nat) \<le> 57) \<or>
      (65 \<le> (of_char c :: nat) \<and> (of_char c :: nat) \<le> 90) \<or>
      (of_char c :: nat) = 95 \<or>
      (97 \<le> (of_char c :: nat) \<and> (of_char c :: nat) \<le> 122))"

definition is_space :: "char \<Rightarrow> bool" where
  "is_space c =
     ((9 \<le> (of_char c :: nat) \<and> (of_char c :: nat) \<le> 13) \<or>
      (of_char c :: nat) = 32 \<or> (of_char c :: nat) = 160)"

definition word_boundary :: "char option \<Rightarrow> string \<Rightarrow> bool" where
  "word_boundary p s =
     ((case p of None \<Rightarrow> False | Some c \<Rightarrow> is_word c) \<noteq>
      (case s of [] \<Rightarrow> False | c # _ \<Rightarrow> is_word c))"

type_synonym 'a cont = "char option \<Rightarrow> string \<Rightarrow> 'a option"

fun lit :: "string \<Rightarrow> 'a cont \<Rightarrow> 'a cont" where
  "lit [] k p s = k p s"
| "lit (c # cs) k p [] = None"
| "lit (c # cs) k p (x # xs) = (if x = c then lit cs k (Some x) xs else None)"

fun star :: "(char \<Rightarrow> bool) \<Rightarrow> 'a cont \<Rightarrow> 'a cont" where
  "star P k p [] = k p []"
| "star P k p (x # xs) =
     (if P x
      then (case star P k (Some x) xs of Some r \<Rightarrow> Some r | None \<Rightarrow> k p (x # xs))
      else k p (x # xs))"

fun plus1 :: "(char \<Rightarrow> bool) \<Rightarrow> 'a cont \<Rightarrow> 'a cont" where
  "plus1 P k p [] = None"
| "plus1 P k p (x # xs) = (if P x then star P k (Some x) xs else None)"

definition wordb :: "'a cont \<Rightarrow> 'a cont" where
  "wordb k p s = (if word_boundary p s then k p s else None)"

definition capture :: "('a cont \<Rightarrow> 'a cont) \<Rightarrow> (string \<Rightarrow> 'a cont) \<Rightarrow> 'a cont" where
  "capture body k p s = body (\<lambda>p' s'. k (take (length s - length s') s) p' s') p s"

definition ping_re :: "string cont" where
  "ping_re =
     wordb (lit ''time=''
       (capture (\<lambda>k. plus1 is_digit (lit ''.'' (plus1 is_digit k)))
          (\<lambda>m. star is_space (lit ''ms'' (wordb (\<lambda>p s. Some m))))))"

fun exec :: "'a cont \<Rightarrow> 'a cont" where
  "exec re p [] = re p []"
| "exec re p (x # xs) =
     (case re p (x # xs) of Some m \<Rightarrow> Some m | None \<Rightarrow> exec re (Some x) xs)"

definition line_parser :: "string \<Rightarrow> string option" where
  "line_parser line = exec ping_re None line"



section \<open>The async generator \<^verbatim>\<open>ping\<close>\<close>

text \<open>
  \<^verbatim>\<open>async function* ping(host, interval)\<close> is modelled as the state machine that an
  async generator object is: a phase (where the body is suspended), the queue of
  \<^verbatim>\<open>next()\<close>/\<^verbatim>\<open>return()\<close> requests that have not been answered yet, and the trace of
  what the body has done so far. Every \<^verbatim>\<open>await\<close> of the body is one phase:

  \<^item> \<open>AwaitRead\<close>: \<^verbatim>\<open>await stdout.read_line_async(0, readCancellable)\<close>;
  \<^item> \<open>AwaitClose\<close>: \<^verbatim>\<open>await stdout.close_async(0, null)\<close> in the \<^verbatim>\<open>finally\<close> block;
  \<^item> \<open>AwaitExit\<close>: \<^verbatim>\<open>await proc.wait_async(null)\<close>;
  \<^item> \<open>AwaitTerm\<close>: \<^verbatim>\<open>await _wait_proc_with_timeout(proc, SIGTERM_TIMEOUT)\<close>;
  \<^item> \<open>AwaitKill\<close>: \<^verbatim>\<open>await _wait_proc_with_timeout(proc, SIGKILL_TIMEOUT)\<close>.

  The phases of the \<^verbatim>\<open>finally\<close> block carry the completion that is pending while the
  block runs: a return (from \<^verbatim>\<open>return;\<close> at end of stream or from \<^verbatim>\<open>return()\<close>) or a
  throw (an error of the read). The Gio and Mainloop primitives are not part of the
  repository: what an awaited call resolves to is an input of the model (type
  \<open>resume\<close>), and each of the awaited calls may also be rejected. Spawning the process
  is assumed to succeed.

  As the language defines it, a request that arrives while the body is running or
  suspended at an \<^verbatim>\<open>await\<close> is only appended to the queue; the body sees it at its next
  \<^verbatim>\<open>yield\<close> or when it completes.
\<close>

definition SIGTERM :: nat where
  "SIGTERM = 15"

definition SIGTERM_TIMEOUT :: nat where
  "SIGTERM_TIMEOUT = 5000"

definition SIGKILL_TIMEOUT :: nat where
  "SIGKILL_TIMEOUT = 5000"

datatype wait_result = Exited | NotExited | WaitError

datatype resume =
    Line string
  | Eof
  | ReadError
  | Closed "nat option"
  | CloseError
  | Waited wait_result

datatype logmsg =
    LogLine string
  | LogExitedOnOwn
  | LogTerminating nat
  | LogNotTerminated nat
  | LogTerminated
  | LogErrorKilling

datatype action =
    Spawn "string option" nat
  | ReadLineAsync
  | Got resume
  | Log logmsg
  | Yield "string option"
  | CancelRead
  | CloseAsync
  | WaitAsync
  | SendSignal nat
  | TimeoutAdd nat
  | WaitAsyncCancellable
  | SourceRemove
  | ForceExit

datatype request = Next | Return

datatype settle = Value "string option" | Finished | Raised

datatype completion = CReturn | CThrow

datatype phase =
    SuspendedStart
  | AwaitRead
  | SuspendedYield
  | AwaitClose completion
  | AwaitExit completion
  | AwaitTerm completion nat
  | AwaitKill completion nat
  | Completed

record gen =
  args :: "string option \<times> nat"
  phase :: phase
  queue :: "request list"
  trace :: "action list"

text \<open>Calling \<^verbatim>\<open>ping(host, interval)\<close> only creates the generator object.\<close>

definition ping :: "string option \<Rightarrow> nat \<Rightarrow> gen" where
  "ping h i = \<lparr>args = (h, i), phase = SuspendedStart, queue = [], trace = []\<rparr>"

definition act :: "action list \<Rightarrow> gen \<Rightarrow> gen" where
  "act as g = g\<lparr>trace := trace g @ as\<rparr>"

text \<open>The top of the \<^verbatim>\<open>for (;;)\<close> loop, up to its \<^verbatim>\<open>await\<close>.\<close>

definition read_line :: "gen \<Rightarrow> gen" where
  "read_line g = (act [ReadLineAsync] g)\<lparr>phase := AwaitRead\<rparr>"

text \<open>Entering the \<^verbatim>\<open>finally\<close> block with a pending completion, up to its first \<^verbatim>\<open>await\<close>.\<close>

definition finalizer :: "completion \<Rightarrow> gen \<Rightarrow> gen" where
  "finalizer c g = (act [CancelRead, CloseAsync] g)\<lparr>phase := AwaitClose c\<rparr>"

text \<open>
  \<^verbatim>\<open>_wait_proc_with_timeout\<close>: arm the timer that cancels the wait, start the wait;
  when the wait is over (with a value or an error) the \<^verbatim>\<open>finally\<close> removes the timer.
\<close>

definition wait_proc_with_timeout :: "nat \<Rightarrow> gen \<Rightarrow> gen" where
  "wait_proc_with_timeout timeout g = act [TimeoutAdd timeout, WaitAsyncCancellable] g"

definition wait_proc_finished :: "wait_result \<Rightarrow> gen \<Rightarrow> gen" where
  "wait_proc_finished r g = act [Got (Waited r), SourceRemove] g"

text \<open>
  The generator is done. The request at the head of the queue gets the completion (done,
  or the error); the requests behind it are answered as on any finished generator.
\<close>

definition complete :: "completion \<Rightarrow> gen \<Rightarrow> gen \<times> (request \<times> settle) list" where
  "complete c g =
     (g\<lparr>phase := Completed, queue := []\<rparr>,
      case queue g of
        [] \<Rightarrow> []
      | r # rs \<Rightarrow> (r, case c of CReturn \<Rightarrow> Finished | CThrow \<Rightarrow> Raised) # map (\<lambda>r. (r, Finished)) rs)"

text \<open>
  \<^verbatim>\<open>yield v\<close>: the request at the head of the queue is answered with the value. With no
  further request the generator stays suspended at the \<^verbatim>\<open>yield\<close>; otherwise it goes on
  at once with the next request: a \<^verbatim>\<open>next()\<close> continues the loop, a \<^verbatim>\<open>return()\<close> makes
  the \<^verbatim>\<open>yield\<close> return, which enters the \<^verbatim>\<open>finally\<close> block.
\<close>

definition yield :: "string option \<Rightarrow> gen \<Rightarrow> gen \<times> (request \<times> settle) list" where
  "yield v g =
     (let g1 = act [Yield v] g in
      case queue g1 of
        [] \<Rightarrow> (g1\<lparr>phase := SuspendedYield\<rparr>, [])
      | r # rs \<Rightarrow>
          (case rs of
             [] \<Rightarrow> g1\<lparr>phase := SuspendedYield, queue := []\<rparr>
           | Next # _ \<Rightarrow> read_line (g1\<lparr>queue := rs\<rparr>)
           | Return # _ \<Rightarrow> finalizer CReturn (g1\<lparr>queue := rs\<rparr>),
           [(r, Value v)]))"

text \<open>The \<^verbatim>\<open>finally\<close> block after the stream is closed: \<^verbatim>\<open>pid\<close> is what \<^verbatim>\<open>proc.get_identifier()\<close> returns.\<close>

definition shutdown :: "completion \<Rightarrow> nat option \<Rightarrow> gen \<Rightarrow> gen" where
  "shutdown c pid g =
     (case pid of
        None \<Rightarrow> (act [Log LogExitedOnOwn, WaitAsync] g)\<lparr>phase := AwaitExit c\<rparr>
      | Some p \<Rightarrow>
          (wait_proc_with_timeout SIGTERM_TIMEOUT
             (act [Log (LogTerminating p), SendSignal SIGTERM] g))\<lparr>phase := AwaitTerm c p\<rparr>)"

text \<open>A \<^verbatim>\<open>next()\<close> or \<^verbatim>\<open>return()\<close> call on the generator object.\<close>

definition request :: "request \<Rightarrow> gen \<Rightarrow> gen \<times> (request \<times> settle) list" where
  "request r g =
     (case phase g of
        SuspendedStart \<Rightarrow>
          (case r of
             Next \<Rightarrow> (read_line (act [Spawn (fst (args g)) (snd (args g))] (g\<lparr>queue := [Next]\<rparr>)), [])
           | Return \<Rightarrow> complete CReturn (g\<lparr>queue := [Return]\<rparr>))
      | SuspendedYield \<Rightarrow>
          (case r of
             Next \<Rightarrow> (read_line (g\<lparr>queue := [Next]\<rparr>), [])
           | Return \<Rightarrow> (finalizer CReturn (g\<lparr>queue := [Return]\<rparr>), []))
      | Completed \<Rightarrow> (g, [(r, Finished)])
      | _ \<Rightarrow> (g\<lparr>queue := queue g @ [r]\<rparr>, []))"

text \<open>An awaited call is over: the body goes on from its \<^verbatim>\<open>await\<close> to the next one.\<close>

definition resume :: "resume \<Rightarrow> gen \<Rightarrow> gen \<times> (request \<times> settle) list" where
  "resume e g =
     (case phase g of
        AwaitRead \<Rightarrow>
          (case e of
             Line l \<Rightarrow> yield (line_parser l) (act [Got e, Log (LogLine l)] g)
           | Eof \<Rightarrow> (finalizer CReturn (act [Got e] g), [])
           | ReadError \<Rightarrow> (finalizer CThrow (act [Got e] g), [])
           | _ \<Rightarrow> (g, []))
      | AwaitClose c \<Rightarrow>
          (case e of
             Closed pid \<Rightarrow> (shutdown c pid (act [Got e] g), [])
           | CloseError \<Rightarrow> complete CThrow (act [Got e] g)
           | _ \<Rightarrow> (g, []))
      | AwaitExit c \<Rightarrow>
          (case e of
             Waited r \<Rightarrow> complete (if r = WaitError then CThrow else c) (act [Got e] g)
           | _ \<Rightarrow> (g, []))
      | AwaitTerm c p \<Rightarrow>
          (case e of
             Waited r \<Rightarrow>
               (let g1 = wait_proc_finished r g in
                case r of
                  WaitError \<Rightarrow> complete CThrow g1
                | Exited \<Rightarrow> complete c (act [Log LogTerminated] g1)
                | NotExited \<Rightarrow>
                    ((wait_proc_with_timeout SIGKILL_TIMEOUT
                        (act [Log (LogNotTerminated p), ForceExit] g1))\<lparr>phase := AwaitKill c p\<rparr>, []))
           | _ \<Rightarrow> (g, []))
      | AwaitKill c p \<Rightarrow>
          (case e of
             Waited r \<Rightarrow>
               (let g1 = wait_proc_finished r g in
                case r of
                  WaitError \<Rightarrow> complete CThrow g1
                | Exited \<Rightarrow> complete c (act [Log LogTerminated] g1)
                | NotExited \<Rightarrow> complete c (act [Log LogErrorKilling] g1))
           | _ \<Rightarrow> (g, []))
      | _ \<Rightarrow> (g, []))"

text \<open>A generator on its own, driven by any sequence of requests and resumptions.\<close>

datatype input = Req request | Res resume

fun feed :: "input \<Rightarrow> gen \<Rightarrow> gen" where
  "feed (Req r) g = fst (request r g)"
| "feed (Res e) g = fst (resume e g)"

definition ping_run :: "string option \<Rightarrow> nat \<Rightarrow> input list \<Rightarrow> gen" where
  "ping_run h i ins = foldl (\<lambda>g x. feed x g) (ping h i) ins"

text \<open>The part of a trace before the first occurrence of an action, and the part after it.\<close>

definition before :: "action \<Rightarrow> action list \<Rightarrow> action list" where
  "before a tr = takeWhile (\<lambda>x. x \<noteq> a) tr"

definition after :: "action \<Rightarrow> action list \<Rightarrow> action list" where
  "after a tr = drop 1 (dropWhile (\<lambda>x. x \<noteq> a) tr)"

section \<open>The applet \<^verbatim>\<open>PingIndicatorApplet\<close>\<close>

text \<open>
  The applet object is a record of its fields. Generator objects live in \<open>gens\<close>, in the
  order of their creation; the index of a generator is its identity, and \<open>ping'\<close> (the
  field \<^verbatim>\<open>_ping\<close>) holds such an index or is null. A promise is either the one made by
  \<^verbatim>\<open>Promise.resolve()\<close> in the constructor or the one that \<^verbatim>\<open>return()\<close> of a generator
  gave; \<open>returned\<close> records the latter once they are settled. Every call of \<^verbatim>\<open>_stop\<close> is
  an entry of \<open>calls\<close>: the promise it awaits, whether it awaits inside the
  \<^verbatim>\<open>try\<close>/\<^verbatim>\<open>catch\<close>, whether \<^verbatim>\<open>on_settings_changed\<close> waits for it to call \<^verbatim>\<open>_start\<close>, and
  how the call ended, if it has.
\<close>

datatype promise = Resolved | ReturnOf nat

datatype outcome = Fulfilled | Rejected

record stop_call =
  awaits :: promise
  catches :: bool
  then_start :: bool
  status :: "outcome option"

datatype applet_log = LogUpdateLoopStopped | LogError | LogRestarting | LogStarting

record applet =
  title :: "string option"
  host :: "string option"
  interval :: nat
  is_in_panel :: bool
  ping' :: "nat option"
  stoppedPromise :: promise
  label :: string
  tooltip :: string
  gens :: "gen list"
  returned :: "(nat \<times> outcome) list"
  calls :: "stop_call list"
  forwarded :: "(nat \<times> string option) list"
  logged :: "applet_log list"

definition promise_state :: "applet \<Rightarrow> promise \<Rightarrow> outcome option" where
  "promise_state st p = (case p of Resolved \<Rightarrow> Some Fulfilled | ReturnOf s \<Rightarrow> map_of (returned st) s)"

definition set_applet_tooltip :: "string \<Rightarrow> applet \<Rightarrow> applet" where
  "set_applet_tooltip t st = st\<lparr>tooltip := t\<rparr>"

definition set_applet_label :: "string \<Rightarrow> applet \<Rightarrow> applet" where
  "set_applet_label l st = st\<lparr>label := l\<rparr>"

text \<open>\<^verbatim>\<open>_set_ping_val\<close>: a title that is null or empty is falsy and gives no prefix.\<close>

definition set_ping_val :: "string option \<Rightarrow> applet \<Rightarrow> applet" where
  "set_ping_val val st =
     set_applet_label
       ((case title st of None \<Rightarrow> [] | Some t \<Rightarrow> if t = [] then [] else t @ '' '') @
        (case val of Some v \<Rightarrow> v @ '' ms'' | None \<Rightarrow> ''N/A''))
       st"

text \<open>The constructor; \<^verbatim>\<open>this.host ?? ""\<close> is the host unless it is null.\<close>

definition constructor :: "string option \<Rightarrow> string option \<Rightarrow> nat \<Rightarrow> applet" where
  "constructor t h i =
     set_ping_val None
       (set_applet_tooltip (case h of None \<Rightarrow> [] | Some x \<Rightarrow> x)
          \<lparr>title = t, host = h, interval = i, is_in_panel = False, ping' = None,
           stoppedPromise = Resolved, label = [], tooltip = [], gens = [], returned = [],
           calls = [], forwarded = [], logged = []\<rparr>)"

text \<open>
  \<^verbatim>\<open>_start\<close>. \<^verbatim>\<open>_async_update()\<close> runs at once up to its first \<^verbatim>\<open>await\<close>: the
  \<^verbatim>\<open>for await\<close> calls \<^verbatim>\<open>next()\<close> on the new generator, which spawns the process.
\<close>

definition start :: "applet \<Rightarrow> applet" where
  "start st =
     (case ping' st of
        Some _ \<Rightarrow> st
      | None \<Rightarrow>
          st\<lparr>ping' := Some (length (gens st)),
             gens := gens st @ [fst (request Next (ping (host st) (interval st)))]\<rparr>)"

text \<open>
  \<^verbatim>\<open>_async_update\<close> when the \<^verbatim>\<open>next()\<close> it awaits on generator \<open>s\<close> is answered: a value is
  passed to \<^verbatim>\<open>_set_ping_val\<close> and the loop calls \<^verbatim>\<open>next()\<close> again (the generator is not
  finished then, so that call is not answered at once); the end of the sequence or an
  error ends the loop.
\<close>

definition async_update :: "nat \<Rightarrow> settle \<Rightarrow> applet \<Rightarrow> applet" where
  "async_update s r st =
     (case r of
        Value v \<Rightarrow>
          (set_ping_val v st)
            \<lparr>forwarded := forwarded st @ [(s, v)],
             gens := (gens st)[s := fst (request Next (gens st ! s))]\<rparr>
      | Finished \<Rightarrow> st\<lparr>logged := logged st @ [LogUpdateLoopStopped]\<rparr>
      | Raised \<Rightarrow> st\<lparr>logged := logged st @ [LogError, LogUpdateLoopStopped]\<rparr>)"

text \<open>
  The promise of \<^verbatim>\<open>return()\<close> on generator \<open>s\<close> is settled: every call of \<^verbatim>\<open>_stop\<close> that
  awaits it goes on. Inside the \<^verbatim>\<open>try\<close> a rejection is logged and the call ends normally;
  outside it the rejection is the end of the call. Where \<^verbatim>\<open>on_settings_changed\<close> was
  waiting for the call, it goes on with \<^verbatim>\<open>this._start()\<close>.
\<close>

definition wakes :: "nat \<Rightarrow> stop_call \<Rightarrow> bool" where
  "wakes s c = (awaits c = ReturnOf s \<and> status c = None)"

definition stop_settled :: "nat \<Rightarrow> settle \<Rightarrow> applet \<Rightarrow> applet" where
  "stop_settled s r st =
     (let oc = (case r of Raised \<Rightarrow> Rejected | _ \<Rightarrow> Fulfilled);
          woken = filter (wakes s) (calls st);
          st1 = st\<lparr>returned := returned st @ [(s, oc)],
                   calls := map (\<lambda>c. if wakes s c
                                      then c\<lparr>status := Some (if catches c then Fulfilled else oc)\<rparr>
                                      else c) (calls st),
                   logged := logged st @
                     concat (map (\<lambda>c. if catches c \<and> oc = Rejected then [LogError] else []) woken)\<rparr>
      in foldl (\<lambda>st c. if then_start c then start st else st) st1 woken)"

fun deliver :: "nat \<Rightarrow> (request \<times> settle) list \<Rightarrow> applet \<Rightarrow> applet" where
  "deliver s [] st = st"
| "deliver s ((Next, r) # outs) st = deliver s outs (async_update s r st)"
| "deliver s ((Return, r) # outs) st = deliver s outs (stop_settled s r st)"

text \<open>\<^verbatim>\<open>_stop\<close>, up to its \<^verbatim>\<open>await\<close>; the rest of the call is in \<open>stop_settled\<close>.\<close>

definition stop :: "applet \<Rightarrow> applet" where
  "stop st =
     (case ping' st of
        Some s \<Rightarrow>
          (let (g, outs) = request Return (gens st ! s) in
           deliver s outs
             (st\<lparr>ping' := None, gens := (gens st)[s := g], stoppedPromise := ReturnOf s,
                 calls := calls st @
                   [\<lparr>awaits = ReturnOf s, catches = True, then_start = False, status = None\<rparr>]\<rparr>))
      | None \<Rightarrow>
          st\<lparr>calls := calls st @
               [\<lparr>awaits = stoppedPromise st, catches = False, then_start = False,
                 status = promise_state st (stoppedPromise st)\<rparr>]\<rparr>)"

definition on_applet_added_to_panel :: "applet \<Rightarrow> applet" where
  "on_applet_added_to_panel st = start (st\<lparr>is_in_panel := True\<rparr>)"

definition on_applet_removed_from_panel :: "applet \<Rightarrow> applet" where
  "on_applet_removed_from_panel st = stop (st\<lparr>is_in_panel := False\<rparr>)"

text \<open>
  \<^verbatim>\<open>on_settings_changed\<close>, called after the settings have been stored in the fields. With
  a generator in \<^verbatim>\<open>_ping\<close> it awaits \<^verbatim>\<open>_stop()\<close> and calls \<^verbatim>\<open>_start()\<close> afterwards: at once
  when the call of \<^verbatim>\<open>_stop\<close> has ended already, when it ends otherwise.
\<close>

definition on_settings_changed :: "applet \<Rightarrow> applet" where
  "on_settings_changed st0 =
     (let st = set_applet_tooltip (case host st0 of None \<Rightarrow> [] | Some x \<Rightarrow> x) st0 in
      if is_in_panel st then
        (if ping' st \<noteq> None then
           (let st1 = stop (st\<lparr>logged := logged st @ [LogRestarting]\<rparr>) in
            if status (last (calls st1)) \<noteq> None then start st1
            else st1\<lparr>calls := butlast (calls st1) @ [(last (calls st1))\<lparr>then_start := True\<rparr>]\<rparr>)
         else start (st\<lparr>logged := logged st @ [LogStarting]\<rparr>))
      else st)"

text \<open>
  What can happen to the applet: the three callbacks of the host shell, and the end of
  the call that generator \<open>s\<close> awaits. An event is processed to its end before the next
  one: what follows from a settled promise (the loop of \<^verbatim>\<open>_async_update\<close> going on, a
  call of \<^verbatim>\<open>_stop\<close> going on) runs as jobs of the promise queue, before the main loop
  handles anything else.
\<close>

datatype event =
    AddedToPanel
  | RemovedFromPanel
  | SettingsChanged "string option" "string option" nat
  | Env nat resume

fun step :: "event \<Rightarrow> applet \<Rightarrow> applet" where
  "step AddedToPanel st = on_applet_added_to_panel st"
| "step RemovedFromPanel st = on_applet_removed_from_panel st"
| "step (SettingsChanged t h i) st = on_settings_changed (st\<lparr>title := t, host := h, interval := i\<rparr>)"
| "step (Env s e) st =
     (if s < length (gens st)
      then (let (g, outs) = resume e (gens st ! s) in deliver s outs (st\<lparr>gens := (gens st)[s := g]\<rparr>))
      else st)"

definition run :: "event list \<Rightarrow> applet \<Rightarrow> applet" where
  "run es st = foldl (\<lambda>st e. step e st) st es"

section \<open>Statements of the specification\<close>

text \<open>
  The pattern as the specification words it, \<^verbatim>\<open>time=<digits>(.<digits>)?\s*ms\<close> with the
  number integer or decimal, here between word boundaries; \<open>opt\<close> is a greedy \<^verbatim>\<open>?\<close>.
  \<open>spec_parser\<close> returns the number of the leftmost match, \<open>tokens\<close> the numbers of the
  matches at all positions of the line, from the left.
\<close>

definition opt :: "('a cont \<Rightarrow> 'a cont) \<Rightarrow> 'a cont \<Rightarrow> 'a cont" where
  "opt body k p s = (case body k p s of Some r \<Rightarrow> Some r | None \<Rightarrow> k p s)"

definition spec_re :: "string cont" where
  "spec_re =
     wordb (lit ''time=''
       (capture (\<lambda>k. plus1 is_digit (opt (\<lambda>k. lit ''.'' (plus1 is_digit k)) k))
          (\<lambda>m. star is_space (lit ''ms'' (wordb (\<lambda>p s. Some m))))))"

definition spec_parser :: "string \<Rightarrow> string option" where
  "spec_parser line = exec spec_re None line"






text \<open>
  The label as the specification words it: the title, a space, the value and \<^verbatim>\<open> ms\<close> for a
  resolved sample (no space after an empty title), the title directly followed by
  \<^verbatim>\<open>N/A\<close> for an unresolved one.
\<close>

definition spec_label :: "string option \<Rightarrow> string option \<Rightarrow> string" where
  "spec_label t val =
     (case val of
        Some v \<Rightarrow> (case t of None \<Rightarrow> [] | Some x \<Rightarrow> if x = [] then [] else x @ '' '') @ v @ '' ms''
      | None \<Rightarrow> (case t of None \<Rightarrow> [] | Some x \<Rightarrow> x) @ ''N/A'')"

text \<open>
  A session, in the words of the specification, is the full lifetime of one spawned
  process, from spawn to confirmed termination, and is destroyed only after its full
  shutdown sequence completes. A generator of the applet has its process spawned as soon
  as it is created, and its shutdown sequence is complete when the generator is
  finished.
\<close>

definition active :: "applet \<Rightarrow> nat \<Rightarrow> bool" where
  "active st s = (s < length (gens st) \<and> phase (gens st ! s) \<noteq> Completed)"

definition active_sessions :: "applet \<Rightarrow> nat list" where
  "active_sessions st = filter (active st) [0..<length (gens st)]"

section \<open>Traces of the \<^verbatim>\<open>finally\<close> block, invariants, scenarios\<close>

text \<open>
  The actions of the \<^verbatim>\<open>try\<close> block, and the actions that signal the process.
\<close>

fun is_body :: "action \<Rightarrow> bool" where
  "is_body (Spawn h i) = True"
| "is_body ReadLineAsync = True"
| "is_body (Got (Line l)) = True"
| "is_body (Got Eof) = True"
| "is_body (Got ReadError) = True"
| "is_body (Log (LogLine l)) = True"
| "is_body (Yield v) = True"
| "is_body a = False"

fun is_signal :: "action \<Rightarrow> bool" where
  "is_signal (SendSignal n) = True"
| "is_signal ForceExit = True"
| "is_signal a = False"

text \<open>The pieces of the trace of the \<^verbatim>\<open>finally\<close> block, one for each stretch between two awaits.\<close>

definition closing :: "action list" where
  "closing = [CancelRead, CloseAsync]"

definition exiting :: "action list" where
  "exiting = [Got (Closed None), Log LogExitedOnOwn, WaitAsync]"

definition terminating :: "nat \<Rightarrow> action list" where
  "terminating p =
     [Got (Closed (Some p)), Log (LogTerminating p), SendSignal SIGTERM,
      TimeoutAdd SIGTERM_TIMEOUT, WaitAsyncCancellable]"

definition killing :: "nat \<Rightarrow> action list" where
  "killing p =
     [Got (Waited NotExited), SourceRemove, Log (LogNotTerminated p), ForceExit,
      TimeoutAdd SIGKILL_TIMEOUT, WaitAsyncCancellable]"

text \<open>
  \<open>shape ph tr\<close>: the traces that a generator in phase \<open>ph\<close> can have. Actions of the
  \<^verbatim>\<open>try\<close> block come first, then the \<^verbatim>\<open>finally\<close> block as far as it has run.
\<close>

inductive shape :: "phase \<Rightarrow> action list \<Rightarrow> bool" where
  shape_start: "shape SuspendedStart []"
| shape_read: "list_all is_body b \<Longrightarrow> shape AwaitRead b"
| shape_yield: "list_all is_body b \<Longrightarrow> shape SuspendedYield b"
| shape_close: "list_all is_body b \<Longrightarrow> shape (AwaitClose c) (b @ closing)"
| shape_exit: "list_all is_body b \<Longrightarrow> shape (AwaitExit c) (b @ closing @ exiting)"
| shape_term: "list_all is_body b \<Longrightarrow> shape (AwaitTerm c p) (b @ closing @ terminating p)"
| shape_kill: "list_all is_body b \<Longrightarrow> shape (AwaitKill c p) (b @ closing @ terminating p @ killing p)"
| shape_unstarted: "shape Completed []"
| shape_close_error: "list_all is_body b \<Longrightarrow> shape Completed (b @ closing @ [Got CloseError])"
| shape_exited: "list_all is_body b \<Longrightarrow> shape Completed (b @ closing @ exiting @ [Got (Waited r)])"
| shape_term_error:
    "list_all is_body b \<Longrightarrow>
     shape Completed (b @ closing @ terminating p @ [Got (Waited WaitError), SourceRemove])"
| shape_terminated:
    "list_all is_body b \<Longrightarrow>
     shape Completed (b @ closing @ terminating p @ [Got (Waited Exited), SourceRemove, Log LogTerminated])"
| shape_kill_error:
    "list_all is_body b \<Longrightarrow>
     shape Completed (b @ closing @ terminating p @ killing p @ [Got (Waited WaitError), SourceRemove])"
| shape_killed:
    "list_all is_body b \<Longrightarrow>
     shape Completed
       (b @ closing @ terminating p @ killing p @ [Got (Waited Exited), SourceRemove, Log LogTerminated])"
| shape_not_killed:
    "list_all is_body b \<Longrightarrow>
     shape Completed
       (b @ closing @ terminating p @ killing p @
        [Got (Waited NotExited), SourceRemove, Log LogErrorKilling])"

text \<open>
  What holds of the queue of a generator: while it awaits a line, the request it is
  working on is a \<^verbatim>\<open>next()\<close>; before its start and suspended at a \<^verbatim>\<open>yield\<close> it has no
  request.
\<close>

definition queue_ok :: "gen \<Rightarrow> bool" where
  "queue_ok g =
     ((phase g = AwaitRead \<longrightarrow> queue g \<noteq> [] \<and> hd (queue g) = Next) \<and>
      (phase g = SuspendedYield \<longrightarrow> queue g = []) \<and>
      (phase g = SuspendedStart \<longrightarrow> queue g = []))"

text \<open>
  What holds of the applet in every state: the generator in \<^verbatim>\<open>_ping\<close> exists, and every
  generator that is not finished and is not the one in \<^verbatim>\<open>_ping\<close> has a \<^verbatim>\<open>return()\<close>
  request in its queue.
\<close>

definition applet_ok :: "applet \<Rightarrow> bool" where
  "applet_ok st =
     ((\<forall>s. ping' st = Some s \<longrightarrow> s < length (gens st)) \<and>
      (\<forall>s < length (gens st). queue_ok (gens st ! s)) \<and>
      (\<forall>s < length (gens st).
         ping' st \<noteq> Some s \<and> phase (gens st ! s) \<noteq> Completed \<longrightarrow> Return \<in> set (queue (gens st ! s))))"

text \<open>Every generator of the applet is the generator \<^verbatim>\<open>ping\<close> after some requests and resumptions.\<close>

definition is_run :: "gen \<Rightarrow> bool" where
  "is_run g = (\<exists>h i ins. g = ping_run h i ins)"

definition all_runs :: "applet \<Rightarrow> bool" where
  "all_runs st = (\<forall>g \<in> set (gens st). is_run g)"

text \<open>
  Scenarios: an applet for host 1.1.1.1 without a title, added to the panel, then
  removed from it while the generator waits for the next line, then removed once more.
\<close>

definition sample_line :: string where
  "sample_line = ''64 bytes from 1.1.1.1: icmp_seq=1 ttl=59 time=12.3 ms''"

definition attached :: applet where
  "attached = step AddedToPanel (constructor None (Some ''1.1.1.1'') 5)"

definition stop_called :: applet where
  "stop_called = step RemovedFromPanel attached"

definition stop_called_twice :: applet where
  "stop_called_twice = step RemovedFromPanel stop_called"

text \<open>
  Removed from the panel and added again before the next line; and the settings changed
  twice while the applet is in the panel.
\<close>

definition removed_and_added :: applet where
  "removed_and_added = step AddedToPanel stop_called"

definition settings_changed_twice :: applet where
  "settings_changed_twice =
     run [SettingsChanged None (Some ''8.8.8.8'') 5, SettingsChanged None (Some ''9.9.9.9'') 5] attached"


section \<open>Properties of the line parser\<close>




















text \<open>
  A reply of 100 ms or more, which \<^verbatim>\<open>ping\<close> prints without a fraction, is not read: the
  group \<^verbatim>\<open>(?:\.\d+)\<close> has no \<^verbatim>\<open>?\<close>.
\<close>

lemma line_parser_integer_example:
  "line_parser ''64 bytes from 1.1.1.1: icmp_seq=1 ttl=59 time=123 ms'' = None \<and>
   spec_parser ''64 bytes from 1.1.1.1: icmp_seq=1 ttl=59 time=123 ms'' = Some ''123''"
  by code_simp




section \<open>Properties of the generator\<close>

text \<open>Every step of a generator keeps its trace in the shape that belongs to its phase.\<close>

lemma act_simps [simp]: "trace (act as g) = trace g @ as" "phase (act as g) = phase g" "queue (act as g) = queue g"
  by (simp_all add: act_def)

lemma shape_request: "shape (phase g) (trace g) \<Longrightarrow> shape (phase (fst (request r g))) (trace (fst (request r g)))"
  by (cases "phase g"; cases r)
     (auto simp: request_def read_line_def finalizer_def complete_def shape.simps closing_def)

lemma shape_resume: "shape (phase g) (trace g) \<Longrightarrow> shape (phase (fst (resume e g))) (trace (fst (resume e g)))"
  by (cases "phase g"; cases e)
     (auto simp: resume_def yield_def shutdown_def wait_proc_with_timeout_def wait_proc_finished_def
        read_line_def finalizer_def complete_def shape.simps closing_def exiting_def terminating_def killing_def
        Let_def split: list.splits request.splits wait_result.splits option.splits)



lemma shape_feed: "shape (phase g) (trace g) \<Longrightarrow> shape (phase (feed x g)) (trace (feed x g))"
  by (cases x) (simp_all add: shape_request shape_resume)

lemma shape_ping_run: "shape (phase (ping_run h i ins)) (trace (ping_run h i ins))"
proof (induction ins rule: rev_induct)
  case Nil
  show ?case by (simp add: ping_run_def ping_def shape.simps)
next
  case (snoc x xs)
  then show ?case using shape_feed [of "ping_run h i xs" x] by (simp add: ping_run_def)
qed

lemma body_notin: "list_all is_body b \<Longrightarrow> \<not> is_body a \<Longrightarrow> a \<notin> set b"
  by (auto simp: list_all_iff)

lemma before_body: "list_all is_body b \<Longrightarrow> \<not> is_body a \<Longrightarrow> before a (b @ f) = b @ before a f"
  unfolding before_def by (rule takeWhile_append2) (auto simp: list_all_iff)

lemma after_body: "list_all is_body b \<Longrightarrow> \<not> is_body a \<Longrightarrow> after a (b @ f) = after a f"
proof -
  assume a: "list_all is_body b" "\<not> is_body a"
  have "dropWhile (\<lambda>x. x \<noteq> a) (b @ f) = dropWhile (\<lambda>x. x \<noteq> a) f"
    by (rule dropWhile_append2) (use a in \<open>auto simp: list_all_iff\<close>)
  then show ?thesis by (simp add: after_def)
qed

lemma signal_body: "list_all is_body b \<Longrightarrow> filter is_signal b = []"
proof (induction b)
  case Nil
  show ?case by simp
next
  case (Cons a b)
  then show ?case by (cases a rule: is_body.cases) auto
qed

lemma count_body: "list_all is_body b \<Longrightarrow> \<not> is_body a \<Longrightarrow> count_list (b @ f) a = count_list f a"
  by (simp add: body_notin)

lemmas pieces = closing_def exiting_def terminating_def killing_def

lemma shape_running:
  assumes "shape ph tr" "Got (Closed (Some p)) \<in> set tr"
  shows "prefix [Log (LogTerminating p), SendSignal SIGTERM, TimeoutAdd SIGTERM_TIMEOUT, WaitAsyncCancellable]
           (after (Got (Closed (Some p))) tr)"
  using assms
  by (cases rule: shape.cases)
     (auto simp: after_body body_notin, auto simp: pieces after_def)

lemma shape_force_exit:
  assumes "shape ph tr" "ForceExit \<in> set tr"
  shows "suffix [SendSignal SIGTERM, TimeoutAdd SIGTERM_TIMEOUT, WaitAsyncCancellable,
                 Got (Waited NotExited), SourceRemove] (butlast (before ForceExit tr))
         \<and> prefix [TimeoutAdd SIGKILL_TIMEOUT, WaitAsyncCancellable] (after ForceExit tr)"
  using assms
  by (cases rule: shape.cases)
     (auto simp: after_body before_body body_notin, auto simp: pieces after_def before_def butlast_append suffix_def)

lemma shape_signals:
  assumes "shape ph tr"
  shows "prefix (filter is_signal tr) [SendSignal SIGTERM, ForceExit]"
  using assms by (cases rule: shape.cases) (auto simp: signal_body pieces)

lemma shape_exited_on_own:
  assumes "shape ph tr" "Got (Closed None) \<in> set tr"
  shows "prefix [Log LogExitedOnOwn, WaitAsync] (after (Got (Closed None)) tr) \<and> filter is_signal tr = []"
  using assms
  by (cases rule: shape.cases)
     (auto simp: after_body body_notin signal_body, auto simp: pieces after_def)


lemma shape_cancel_once:
  assumes "shape ph tr"
  shows "count_list tr CancelRead \<le> 1"
  using assms by (cases rule: shape.cases) (auto simp: count_body body_notin, auto simp: pieces)

lemma shape_finalized:
  assumes "shape Completed tr" "tr \<noteq> []"
  shows "count_list tr CancelRead = 1 \<and> count_list tr CloseAsync = 1 \<and>
         list_all is_body (before CancelRead tr) \<and> prefix [CloseAsync] (after CancelRead tr) \<and>
         (Got CloseError \<notin> set tr \<longrightarrow> (WaitAsync \<in> set tr) \<noteq> (SendSignal SIGTERM \<in> set tr))"
  using assms
  by (cases rule: shape.cases)
     (auto simp: count_body body_notin after_body before_body,
      auto simp: pieces after_def before_def)

lemma shape_close_failed:
  assumes "shape ph tr" "Got CloseError \<in> set tr"
  shows "ph = Completed \<and> after CloseAsync tr = [Got CloseError] \<and> filter is_signal tr = [] \<and>
         WaitAsync \<notin> set tr \<and> WaitAsyncCancellable \<notin> set tr"
  using assms
  by (cases rule: shape.cases)
     (auto simp: after_body body_notin signal_body, auto simp: pieces after_def)

text \<open>
  Once the \<^verbatim>\<open>finally\<close> block has started, the generator does nothing of the \<^verbatim>\<open>try\<close>
  block any more: it reads no line and yields no sample.
\<close>

lemma after_body_only: "list_all is_body b \<Longrightarrow> \<not> is_body a \<Longrightarrow> after a b = []"
  using after_body [of b a "[]"] by (simp add: after_def)

lemma no_sample_after_cancel:
  "list_all (\<lambda>a. \<not> is_body a) (after CancelRead (trace (ping_run h i ins)))"
  using shape_ping_run [of h i ins]
  by (cases rule: shape.cases)
     (auto simp: after_body after_body_only, auto simp: pieces after_def)

text \<open>
  Claim C1. In the trace of every session, under any sequence of requests and
  resumptions: when the \<^verbatim>\<open>finally\<close> block finds the process still running
  (\<^verbatim>\<open>get_identifier()\<close> gives a pid), the next actions are the log line, \<^verbatim>\<open>SIGTERM\<close> (15),
  and a wait under a timer of 5000 ms; \<^verbatim>\<open>force_exit()\<close> happens only directly after that
  wait has returned false and its timer was removed, and is directly followed by a second
  wait under a new timer of 5000 ms; the process is signalled with \<^verbatim>\<open>SIGTERM\<close> first and
  killed second, each at most once.
\<close>

theorem shutdown_protocol:
  "SIGTERM = 15 \<and> SIGTERM_TIMEOUT = 5000 \<and> SIGKILL_TIMEOUT = 5000 \<and>
   (Got (Closed (Some p)) \<in> set (trace (ping_run h i ins)) \<longrightarrow>
      prefix [Log (LogTerminating p), SendSignal SIGTERM, TimeoutAdd SIGTERM_TIMEOUT, WaitAsyncCancellable]
        (after (Got (Closed (Some p))) (trace (ping_run h i ins)))) \<and>
   (ForceExit \<in> set (trace (ping_run h i ins)) \<longrightarrow>
      suffix [SendSignal SIGTERM, TimeoutAdd SIGTERM_TIMEOUT, WaitAsyncCancellable,
              Got (Waited NotExited), SourceRemove]
        (butlast (before ForceExit (trace (ping_run h i ins)))) \<and>
      prefix [TimeoutAdd SIGKILL_TIMEOUT, WaitAsyncCancellable]
        (after ForceExit (trace (ping_run h i ins)))) \<and>
   prefix (filter is_signal (trace (ping_run h i ins))) [SendSignal SIGTERM, ForceExit]"
  using shape_ping_run [of h i ins]
  by (simp add: SIGTERM_def SIGTERM_TIMEOUT_def SIGKILL_TIMEOUT_def shape_running [unfolded SIGTERM_def SIGTERM_TIMEOUT_def]
      shape_force_exit [unfolded SIGTERM_def SIGTERM_TIMEOUT_def SIGKILL_TIMEOUT_def] shape_signals [unfolded SIGTERM_def])

text \<open>
  A session that is stopped after its first line, whose process ignores \<^verbatim>\<open>SIGTERM\<close> for
  5000 ms and exits when killed.
\<close>

theorem shutdown_protocol_witness:
  "filter is_signal
     (trace (ping_run (Some ''1.1.1.1'') 5
        [Req Next, Req Return, Res (Line sample_line), Res (Closed (Some 42)),
         Res (Waited NotExited), Res (Waited Exited)]))
   = [SendSignal 15, ForceExit]
   \<and> prefix [Log (LogTerminating 42), SendSignal 15, TimeoutAdd 5000, WaitAsyncCancellable]
       (after (Got (Closed (Some 42)))
          (trace (ping_run (Some ''1.1.1.1'') 5
             [Req Next, Req Return, Res (Line sample_line), Res (Closed (Some 42)),
              Res (Waited NotExited), Res (Waited Exited)])))
   \<and> prefix [TimeoutAdd 5000, WaitAsyncCancellable]
       (after ForceExit
          (trace (ping_run (Some ''1.1.1.1'') 5
             [Req Next, Req Return, Res (Line sample_line), Res (Closed (Some 42)),
              Res (Waited NotExited), Res (Waited Exited)])))"
proof -
  let ?tr = "trace (ping_run (Some ''1.1.1.1'') 5
        [Req Next, Req Return, Res (Line sample_line), Res (Closed (Some 42)),
         Res (Waited NotExited), Res (Waited Exited)])"
  have m: "ForceExit \<in> set ?tr" "Got (Closed (Some 42)) \<in> set ?tr"
    by code_simp+
  have f: "filter is_signal ?tr = [SendSignal 15, ForceExit]"
    by code_simp
  from shutdown_protocol [of 42 "Some ''1.1.1.1''" 5
        "[Req Next, Req Return, Res (Line sample_line), Res (Closed (Some 42)),
          Res (Waited NotExited), Res (Waited Exited)]"] m f
  show ?thesis by (simp add: SIGTERM_def SIGTERM_TIMEOUT_def SIGKILL_TIMEOUT_def)
qed

text \<open>
  Claim C8. In the trace of every session: when the \<^verbatim>\<open>finally\<close> block finds no pid, its
  next actions are the log line \<^verbatim>\<open>ping exited on its own\<close> and the wait for the exit
  status, without a timer; no signal is ever sent to the process. When that wait is over
  without an error and the block was entered by a return, every pending request is
  answered with the end of the sequence, none with an error.
\<close>

theorem exited_on_its_own:
  "(Got (Closed None) \<in> set (trace (ping_run h i ins)) \<longrightarrow>
      prefix [Log LogExitedOnOwn, WaitAsync] (after (Got (Closed None)) (trace (ping_run h i ins))) \<and>
      filter is_signal (trace (ping_run h i ins)) = []) \<and>
   (phase g = AwaitExit CReturn \<and> r \<noteq> WaitError \<longrightarrow>
      phase (fst (resume (Waited r) g)) = Completed \<and>
      snd (resume (Waited r) g) = map (\<lambda>q. (q, Finished)) (queue g))"
  using shape_ping_run [of h i ins]
  by (cases "queue g") (auto simp: shape_exited_on_own resume_def complete_def)

theorem exited_on_its_own_witness:
  "trace (ping_run (Some ''1.1.1.1'') 5 [Req Next, Res Eof, Res (Closed None), Res (Waited Exited)])
     = [Spawn (Some ''1.1.1.1'') 5, ReadLineAsync, Got Eof, CancelRead, CloseAsync,
        Got (Closed None), Log LogExitedOnOwn, WaitAsync, Got (Waited Exited)]
   \<and> filter is_signal
       (trace (ping_run (Some ''1.1.1.1'') 5 [Req Next, Res Eof, Res (Closed None), Res (Waited Exited)])) = []
   \<and> snd (resume (Waited Exited)
        (ping_run (Some ''1.1.1.1'') 5 [Req Next, Res Eof, Res (Closed None)])) = [(Next, Finished)]"
proof -
  let ?ins = "[Req Next, Res Eof, Res (Closed None), Res (Waited Exited)]"
  let ?g = "ping_run (Some ''1.1.1.1'') 5 [Req Next, Res Eof, Res (Closed None)]"
  have t: "trace (ping_run (Some ''1.1.1.1'') 5 ?ins)
     = [Spawn (Some ''1.1.1.1'') 5, ReadLineAsync, Got Eof, CancelRead, CloseAsync,
        Got (Closed None), Log LogExitedOnOwn, WaitAsync, Got (Waited Exited)]"
    by code_simp
  have g: "phase ?g = AwaitExit CReturn" "queue ?g = [Next]"
    by code_simp+
  from exited_on_its_own [of "Some ''1.1.1.1''" 5 ?ins ?g Exited] t g
  show ?thesis by simp
qed

text \<open>
  Claim C6, as amended. For every session, under any sequence of requests and
  resumptions: the \<^verbatim>\<open>finally\<close> block is entered at most once, and a session whose process
  was spawned is finished only after the block was entered exactly once; the block
  comes after everything the \<^verbatim>\<open>try\<close> block did, cancels the read, closes the stream once
  and, unless closing raises an error, goes on with exactly one of the wait for the exit
  status and the shutdown protocol. When closing raises an error, the block ends there:
  the session is finished, the error is the last thing in its trace, the process was
  never signalled and its exit was never waited for, and the request at the head of the
  queue is answered with the error. Each way out of the \<^verbatim>\<open>try\<close> block enters the
  \<^verbatim>\<open>finally\<close> block: the end of the stream, an error of the read, and a \<^verbatim>\<open>return()\<close>, which
  takes effect at a \<^verbatim>\<open>yield\<close>.
\<close>

theorem finalizer_once:
  "count_list (trace (ping_run h i ins)) CancelRead \<le> 1 \<and>
   (phase (ping_run h i ins) = Completed \<and> trace (ping_run h i ins) \<noteq> [] \<longrightarrow>
      count_list (trace (ping_run h i ins)) CancelRead = 1 \<and>
      count_list (trace (ping_run h i ins)) CloseAsync = 1 \<and>
      list_all is_body (before CancelRead (trace (ping_run h i ins))) \<and>
      prefix [CloseAsync] (after CancelRead (trace (ping_run h i ins))) \<and>
      (Got CloseError \<notin> set (trace (ping_run h i ins)) \<longrightarrow>
         (WaitAsync \<in> set (trace (ping_run h i ins))) \<noteq>
         (SendSignal SIGTERM \<in> set (trace (ping_run h i ins))))) \<and>
   (Got CloseError \<in> set (trace (ping_run h i ins)) \<longrightarrow>
      phase (ping_run h i ins) = Completed \<and>
      after CloseAsync (trace (ping_run h i ins)) = [Got CloseError] \<and>
      filter is_signal (trace (ping_run h i ins)) = [] \<and>
      WaitAsync \<notin> set (trace (ping_run h i ins)) \<and>
      WaitAsyncCancellable \<notin> set (trace (ping_run h i ins))) \<and>
   (phase g = AwaitClose c \<and> queue g = q # qs \<longrightarrow>
      phase (fst (resume CloseError g)) = Completed \<and>
      trace (fst (resume CloseError g)) = trace g @ [Got CloseError] \<and>
      snd (resume CloseError g) = (q, Raised) # map (\<lambda>r. (r, Finished)) qs) \<and>
   (phase g = AwaitRead \<longrightarrow>
      phase (fst (resume Eof g)) = AwaitClose CReturn \<and>
      phase (fst (resume ReadError g)) = AwaitClose CThrow) \<and>
   (phase g = AwaitRead \<and> queue g = Next # Return # rs \<longrightarrow>
      phase (fst (resume (Line l) g)) = AwaitClose CReturn) \<and>
   (phase g = SuspendedYield \<longrightarrow> phase (fst (request Return g)) = AwaitClose CReturn)"
proof -
  have s: "shape (phase (ping_run h i ins)) (trace (ping_run h i ins))"
    by (rule shape_ping_run)
  have 1: "count_list (trace (ping_run h i ins)) CancelRead \<le> 1"
    using s by (rule shape_cancel_once)
  have 2: "phase (ping_run h i ins) = Completed \<and> trace (ping_run h i ins) \<noteq> [] \<longrightarrow>
      count_list (trace (ping_run h i ins)) CancelRead = 1 \<and>
      count_list (trace (ping_run h i ins)) CloseAsync = 1 \<and>
      list_all is_body (before CancelRead (trace (ping_run h i ins))) \<and>
      prefix [CloseAsync] (after CancelRead (trace (ping_run h i ins))) \<and>
      (Got CloseError \<notin> set (trace (ping_run h i ins)) \<longrightarrow>
         (WaitAsync \<in> set (trace (ping_run h i ins))) \<noteq>
         (SendSignal SIGTERM \<in> set (trace (ping_run h i ins))))"
    using s shape_finalized [of "trace (ping_run h i ins)"] by auto
  have 3: "phase g = AwaitRead \<longrightarrow>
      phase (fst (resume Eof g)) = AwaitClose CReturn \<and>
      phase (fst (resume ReadError g)) = AwaitClose CThrow"
    by (simp add: resume_def finalizer_def)
  have 4: "phase g = AwaitRead \<and> queue g = Next # Return # rs \<longrightarrow>
      phase (fst (resume (Line l) g)) = AwaitClose CReturn"
    by (simp add: resume_def yield_def finalizer_def)
  have 5: "phase g = SuspendedYield \<longrightarrow> phase (fst (request Return g)) = AwaitClose CReturn"
    by (simp add: request_def finalizer_def)
  have 6: "Got CloseError \<in> set (trace (ping_run h i ins)) \<longrightarrow>
      phase (ping_run h i ins) = Completed \<and>
      after CloseAsync (trace (ping_run h i ins)) = [Got CloseError] \<and>
      filter is_signal (trace (ping_run h i ins)) = [] \<and>
      WaitAsync \<notin> set (trace (ping_run h i ins)) \<and>
      WaitAsyncCancellable \<notin> set (trace (ping_run h i ins))"
    using s shape_close_failed [of "phase (ping_run h i ins)" "trace (ping_run h i ins)"] by blast
  have 7: "phase g = AwaitClose c \<and> queue g = q # qs \<longrightarrow>
      phase (fst (resume CloseError g)) = Completed \<and>
      trace (fst (resume CloseError g)) = trace g @ [Got CloseError] \<and>
      snd (resume CloseError g) = (q, Raised) # map (\<lambda>r. (r, Finished)) qs"
    by (simp add: resume_def complete_def)
  from 1 2 3 4 5 6 7 show ?thesis by blast
qed

theorem finalizer_once_witness:
  "phase (ping_run (Some ''1.1.1.1'') 5
     [Req Next, Req Return, Res (Line sample_line), Res (Closed (Some 42)), Res (Waited Exited)]) = Completed
   \<and> count_list (trace (ping_run (Some ''1.1.1.1'') 5
       [Req Next, Req Return, Res (Line sample_line), Res (Closed (Some 42)), Res (Waited Exited)]))
       CancelRead = 1
   \<and> prefix [CloseAsync] (after CancelRead (trace (ping_run (Some ''1.1.1.1'') 5
       [Req Next, Req Return, Res (Line sample_line), Res (Closed (Some 42)), Res (Waited Exited)])))
   \<and> (WaitAsync \<in> set (trace (ping_run (Some ''1.1.1.1'') 5
         [Req Next, Req Return, Res (Line sample_line), Res (Closed (Some 42)), Res (Waited Exited)])))
       \<noteq> (SendSignal SIGTERM \<in> set (trace (ping_run (Some ''1.1.1.1'') 5
         [Req Next, Req Return, Res (Line sample_line), Res (Closed (Some 42)), Res (Waited Exited)])))
   \<and> phase (fst (resume Eof (ping_run (Some ''1.1.1.1'') 5 [Req Next]))) = AwaitClose CReturn
   \<and> phase (fst (resume (Line sample_line) (ping_run (Some ''1.1.1.1'') 5 [Req Next, Req Return])))
       = AwaitClose CReturn
   \<and> phase (fst (request Return (ping_run (Some ''1.1.1.1'') 5 [Req Next, Res (Line sample_line)])))
       = AwaitClose CReturn
   \<and> filter is_signal (trace (ping_run (Some ''1.1.1.1'') 5
         [Req Next, Req Return, Res (Line sample_line), Res CloseError])) = []
   \<and> WaitAsync \<notin> set (trace (ping_run (Some ''1.1.1.1'') 5
         [Req Next, Req Return, Res (Line sample_line), Res CloseError]))
   \<and> snd (resume CloseError (ping_run (Some ''1.1.1.1'') 5 [Req Next, Req Return, Res (Line sample_line)]))
       = [(Return, Raised)]"
proof -
  let ?ins = "[Req Next, Req Return, Res (Line sample_line), Res (Closed (Some 42)), Res (Waited Exited)]"
  have a: "phase (ping_run (Some ''1.1.1.1'') 5 ?ins) = Completed"
    "trace (ping_run (Some ''1.1.1.1'') 5 ?ins) \<noteq> []"
    "Got CloseError \<notin> set (trace (ping_run (Some ''1.1.1.1'') 5 ?ins))"
    by code_simp+
  have b: "phase (ping_run (Some ''1.1.1.1'') 5 [Req Next]) = AwaitRead"
    by code_simp
  have c: "phase (ping_run (Some ''1.1.1.1'') 5 [Req Next, Req Return]) = AwaitRead"
    "queue (ping_run (Some ''1.1.1.1'') 5 [Req Next, Req Return]) = Next # Return # []"
    by code_simp+
  have d: "phase (ping_run (Some ''1.1.1.1'') 5 [Req Next, Res (Line sample_line)]) = SuspendedYield"
    by code_simp
  from finalizer_once [of "Some ''1.1.1.1''" 5 ?ins "ping_run (Some ''1.1.1.1'') 5 [Req Next]"] a b
  have 1: "count_list (trace (ping_run (Some ''1.1.1.1'') 5 ?ins)) CancelRead = 1"
    "prefix [CloseAsync] (after CancelRead (trace (ping_run (Some ''1.1.1.1'') 5 ?ins)))"
    "(WaitAsync \<in> set (trace (ping_run (Some ''1.1.1.1'') 5 ?ins)))
       \<noteq> (SendSignal SIGTERM \<in> set (trace (ping_run (Some ''1.1.1.1'') 5 ?ins)))"
    "phase (fst (resume Eof (ping_run (Some ''1.1.1.1'') 5 [Req Next]))) = AwaitClose CReturn"
    by blast+
  from finalizer_once [where h = "Some ''1.1.1.1''" and i = 5 and ins = ?ins
      and g = "ping_run (Some ''1.1.1.1'') 5 [Req Next, Req Return]" and rs = "[]" and l = sample_line] c
  have 2: "phase (fst (resume (Line sample_line) (ping_run (Some ''1.1.1.1'') 5 [Req Next, Req Return])))
       = AwaitClose CReturn"
    by blast
  from finalizer_once [of "Some ''1.1.1.1''" 5 ?ins "ping_run (Some ''1.1.1.1'') 5 [Req Next, Res (Line sample_line)]"] d
  have 3: "phase (fst (request Return (ping_run (Some ''1.1.1.1'') 5 [Req Next, Res (Line sample_line)])))
       = AwaitClose CReturn"
    by blast
  have e: "Got CloseError \<in> set (trace (ping_run (Some ''1.1.1.1'') 5
         [Req Next, Req Return, Res (Line sample_line), Res CloseError]))"
    by code_simp
  from finalizer_once [of "Some ''1.1.1.1''" 5 "[Req Next, Req Return, Res (Line sample_line), Res CloseError]"] e
  have 4: "filter is_signal (trace (ping_run (Some ''1.1.1.1'') 5
         [Req Next, Req Return, Res (Line sample_line), Res CloseError])) = []"
    "WaitAsync \<notin> set (trace (ping_run (Some ''1.1.1.1'') 5
         [Req Next, Req Return, Res (Line sample_line), Res CloseError]))"
    by blast+
  have f: "phase (ping_run (Some ''1.1.1.1'') 5 [Req Next, Req Return, Res (Line sample_line)])
       = AwaitClose CReturn"
    "queue (ping_run (Some ''1.1.1.1'') 5 [Req Next, Req Return, Res (Line sample_line)]) = Return # []"
    by code_simp+
  from finalizer_once [where h = "Some ''1.1.1.1''" and i = 5 and ins = ?ins
      and g = "ping_run (Some ''1.1.1.1'') 5 [Req Next, Req Return, Res (Line sample_line)]"
      and c = CReturn and q = Return and qs = "[]"] f
  have 5: "snd (resume CloseError (ping_run (Some ''1.1.1.1'') 5 [Req Next, Req Return, Res (Line sample_line)]))
       = [(Return, Raised)]"
    by simp
  from a 1 2 3 4 5 show ?thesis by blast
qed

text \<open>
  The claim as stated fails when closing the stream raises an error: the session is
  finished, and its process was neither signalled nor waited for.
\<close>

theorem finalizer_close_error_counterexample:
  "phase (ping_run (Some ''1.1.1.1'') 5 [Req Next, Res Eof, Res CloseError]) = Completed \<and>
   trace (ping_run (Some ''1.1.1.1'') 5 [Req Next, Res Eof, Res CloseError])
     = [Spawn (Some ''1.1.1.1'') 5, ReadLineAsync, Got Eof, CancelRead, CloseAsync, Got CloseError]"
  by code_simp

section \<open>Properties of the applet\<close>

text \<open>
  In \<open>async_update\<close> the answers to the \<^verbatim>\<open>next()\<close> call that follows a value are dropped:
  there are none, since a generator that has just yielded is not finished.
\<close>

lemma next_not_answered: "phase g \<noteq> Completed \<Longrightarrow> snd (request Next g) = []"
  by (cases "phase g") (simp_all add: request_def)

lemma yield_not_completed: "phase (fst (yield v g)) \<noteq> Completed"
  by (simp add: yield_def read_line_def finalizer_def Let_def split: list.splits request.splits)

lemma value_not_completed:
  "(q, Value v) \<in> set (snd (resume e g)) \<Longrightarrow> phase (fst (resume e g)) \<noteq> Completed"
  by (cases "phase g"; cases e)
     (auto simp: resume_def yield_def complete_def wait_proc_finished_def read_line_def finalizer_def Let_def
        split: list.splits request.splits wait_result.splits if_splits completion.splits)

text \<open>Every step of the applet keeps \<open>applet_ok\<close>.\<close>

lemma queue_ok_request: "queue_ok g \<Longrightarrow> queue_ok (fst (request r g))"
  by (cases "phase g"; cases r)
     (auto simp: queue_ok_def request_def read_line_def finalizer_def complete_def)

lemma queue_ok_resume: "queue_ok g \<Longrightarrow> queue_ok (fst (resume e g))"
  by (cases "phase g"; cases e)
     (auto simp: queue_ok_def resume_def yield_def shutdown_def wait_proc_with_timeout_def
        wait_proc_finished_def read_line_def finalizer_def complete_def Let_def
        split: list.splits request.splits wait_result.splits option.splits)

lemma return_kept_request:
  "queue_ok g \<Longrightarrow> Return \<in> set (queue g) \<Longrightarrow>
   phase (fst (request r g)) = Completed \<or> Return \<in> set (queue (fst (request r g)))"
  by (cases "phase g"; cases r)
     (auto simp: queue_ok_def request_def read_line_def finalizer_def complete_def)

lemma return_kept_resume:
  "queue_ok g \<Longrightarrow> Return \<in> set (queue g) \<Longrightarrow>
   phase (fst (resume e g)) = Completed \<or> Return \<in> set (queue (fst (resume e g)))"
  by (cases "phase g"; cases e)
     (auto simp: queue_ok_def resume_def yield_def shutdown_def wait_proc_with_timeout_def
        wait_proc_finished_def read_line_def finalizer_def complete_def Let_def
        split: list.splits request.splits wait_result.splits option.splits)

lemma return_requested:
  "phase (fst (request Return g)) = Completed \<or> Return \<in> set (queue (fst (request Return g)))"
  by (cases "phase g") (auto simp: request_def finalizer_def complete_def)

lemma completed_request: "phase g = Completed \<Longrightarrow> fst (request r g) = g"
  by (simp add: request_def)

lemma completed_resume: "phase g = Completed \<Longrightarrow> fst (resume e g) = g"
  by (simp add: resume_def)

lemma new_gen: "queue_ok (fst (request Next (ping h i)))"
  by (simp add: request_def ping_def read_line_def queue_ok_def)

lemma applet_ok_fields: "applet_ok st \<Longrightarrow> ping' st' = ping' st \<Longrightarrow> gens st' = gens st \<Longrightarrow> applet_ok st'"
  by (simp add: applet_ok_def)

lemma applet_ok_start: "applet_ok st \<Longrightarrow> applet_ok (start st)"
  by (cases "ping' st") (auto simp: start_def applet_ok_def nth_append new_gen)

lemma applet_ok_update:
  assumes ok: "applet_ok st"
    and q: "queue_ok (gens st ! s) \<Longrightarrow> queue_ok g"
    and r: "queue_ok (gens st ! s) \<Longrightarrow> Return \<in> set (queue (gens st ! s)) \<Longrightarrow> phase g = Completed \<or> Return \<in> set (queue g)"
    and c: "phase (gens st ! s) = Completed \<Longrightarrow> g = gens st ! s"
    and f: "ping' st' = ping' st" "gens st' = (gens st)[s := g]"
  shows "applet_ok st'"
proof (cases "s < length (gens st)")
  case False
  then have "gens st' = gens st" using f by (simp add: list_update_beyond)
  with f ok show ?thesis by (auto intro: applet_ok_fields)
next
  case True
  have qs: "queue_ok (gens st ! s)" using ok True by (simp add: applet_ok_def)
  show ?thesis
    unfolding applet_ok_def
  proof (intro conjI allI impI)
    fix x assume "ping' st' = Some x"
    then show "x < length (gens st')" using ok f by (simp add: applet_ok_def)
  next
    fix x assume "x < length (gens st')"
    then show "queue_ok (gens st' ! x)"
      using ok f q qs by (cases "x = s") (auto simp: applet_ok_def)
  next
    fix x assume x: "x < length (gens st')" "ping' st' \<noteq> Some x \<and> phase (gens st' ! x) \<noteq> Completed"
    show "Return \<in> set (queue (gens st' ! x))"
    proof (cases "x = s")
      case False
      then show ?thesis using ok f x by (auto simp: applet_ok_def)
    next
      case xs: True
      have g: "gens st' ! x = g" using xs True f by simp
      have nc: "phase (gens st ! s) \<noteq> Completed" using c x g xs by auto
      then have "Return \<in> set (queue (gens st ! s))"
        using ok True x f xs by (auto simp: applet_ok_def)
      with r qs x g show ?thesis by auto
    qed
  qed
qed

lemma applet_ok_async_update: "applet_ok st \<Longrightarrow> applet_ok (async_update s r st)"
proof (cases r)
  case (Value v)
  assume ok: "applet_ok st"
  show ?thesis
    by (rule applet_ok_update [OF ok, where s = s and g = "fst (request Next (gens st ! s))"])
       (auto simp: Value async_update_def set_ping_val_def set_applet_label_def
          queue_ok_request return_kept_request completed_request)
next
  case Finished
  assume "applet_ok st" then show ?thesis
    by (rule applet_ok_fields) (simp_all add: Finished async_update_def)
next
  case Raised
  assume "applet_ok st" then show ?thesis
    by (rule applet_ok_fields) (simp_all add: Raised async_update_def)
qed

lemma applet_ok_starts:
  "applet_ok st \<Longrightarrow> applet_ok (foldl (\<lambda>st c. if then_start c then start st else st) st cs)"
proof (induction cs arbitrary: st)
  case Nil
  then show ?case by simp
next
  case (Cons c cs)
  have "applet_ok (if then_start c then start st else st)"
    using Cons.prems by (simp add: applet_ok_start)
  then show ?case using Cons.IH by simp
qed

lemma applet_ok_stop_settled: "applet_ok st \<Longrightarrow> applet_ok (stop_settled s r st)"
  unfolding stop_settled_def Let_def
  by (rule applet_ok_starts) (erule applet_ok_fields, simp_all)

lemma applet_ok_deliver: "applet_ok st \<Longrightarrow> applet_ok (deliver s outs st)"
  by (induction s outs st rule: deliver.induct)
     (simp_all add: applet_ok_async_update applet_ok_stop_settled)


lemma applet_ok_stop: "applet_ok st \<Longrightarrow> applet_ok (stop st)"
proof (cases "ping' st")
  case None
  assume "applet_ok st"
  then show ?thesis by (rule applet_ok_fields) (simp_all add: stop_def None)
next
  case (Some s)
  assume ok: "applet_ok st"
  let ?g = "fst (request Return (gens st ! s))"
  let ?st = "st\<lparr>ping' := None, gens := (gens st)[s := ?g], stoppedPromise := ReturnOf s,
                 calls := calls st @
                   [\<lparr>awaits = ReturnOf s, catches = True, then_start = False, status = None\<rparr>]\<rparr>"
  have s: "s < length (gens st)" using ok Some by (simp add: applet_ok_def)
  have "applet_ok ?st"
    unfolding applet_ok_def
  proof (intro conjI allI impI)
    fix x assume "ping' ?st = Some x"
    then show "x < length (gens ?st)" by simp
  next
    fix x assume "x < length (gens ?st)"
    then show "queue_ok (gens ?st ! x)"
      using ok by (cases "x = s") (auto simp: applet_ok_def queue_ok_request)
  next
    fix x assume x: "x < length (gens ?st)" "ping' ?st \<noteq> Some x \<and> phase (gens ?st ! x) \<noteq> Completed"
    show "Return \<in> set (queue (gens ?st ! x))"
    proof (cases "x = s")
      case True
      then show ?thesis using x s return_requested [of "gens st ! s"] by auto
    next
      case False
      then show ?thesis using x ok Some by (auto simp: applet_ok_def)
    qed
  qed
  then have "applet_ok (deliver s (snd (request Return (gens st ! s))) ?st)"
    by (rule applet_ok_deliver)
  then show ?thesis by (simp add: stop_def Some split_beta)
qed

lemma applet_ok_on_settings_changed: "applet_ok st \<Longrightarrow> applet_ok (on_settings_changed st)"
proof -
  assume ok: "applet_ok st"
  let ?st = "set_applet_tooltip (case host st of None \<Rightarrow> [] | Some x \<Rightarrow> x) st"
  have 1: "applet_ok ?st"
    using ok by (rule applet_ok_fields) (simp_all add: set_applet_tooltip_def)
  have 2: "applet_ok (?st\<lparr>logged := logged ?st @ l\<rparr>)" for l
    using 1 by (rule applet_ok_fields) simp_all
  let ?st1 = "stop (?st\<lparr>logged := logged ?st @ [LogRestarting]\<rparr>)"
  have 3: "applet_ok ?st1" using 2 by (rule applet_ok_stop)
  have 4: "applet_ok (?st1\<lparr>calls := cs\<rparr>)" for cs
    using 3 by (rule applet_ok_fields) simp_all
  show ?thesis
    unfolding on_settings_changed_def Let_def
    using 1 2 3 4 by (auto simp: applet_ok_start)
qed

lemma applet_ok_step: "applet_ok st \<Longrightarrow> applet_ok (step e st)"
proof (cases e)
  case AddedToPanel
  assume ok: "applet_ok st"
  have "applet_ok (st\<lparr>is_in_panel := True\<rparr>)"
    using ok by (rule applet_ok_fields) simp_all
  then show ?thesis by (simp add: AddedToPanel on_applet_added_to_panel_def applet_ok_start)
next
  case RemovedFromPanel
  assume ok: "applet_ok st"
  have "applet_ok (st\<lparr>is_in_panel := False\<rparr>)"
    using ok by (rule applet_ok_fields) simp_all
  then show ?thesis by (simp add: RemovedFromPanel on_applet_removed_from_panel_def applet_ok_stop)
next
  case (SettingsChanged t h i)
  assume ok: "applet_ok st"
  have "applet_ok (st\<lparr>title := t, host := h, interval := i\<rparr>)"
    using ok by (rule applet_ok_fields) simp_all
  then show ?thesis by (simp add: SettingsChanged applet_ok_on_settings_changed)
next
  case (Env s r)
  assume ok: "applet_ok st"
  show ?thesis
  proof (cases "s < length (gens st)")
    case False
    then show ?thesis using ok by (simp add: Env)
  next
    case True
    have "applet_ok (st\<lparr>gens := (gens st)[s := fst (resume r (gens st ! s))]\<rparr>)"
      by (rule applet_ok_update [OF ok, where s = s and g = "fst (resume r (gens st ! s))"])
         (auto simp: queue_ok_resume return_kept_resume completed_resume)
    then have "applet_ok (deliver s (snd (resume r (gens st ! s)))
                 (st\<lparr>gens := (gens st)[s := fst (resume r (gens st ! s))]\<rparr>))"
      by (rule applet_ok_deliver)
    then show ?thesis using True by (simp add: Env split_beta)
  qed
qed

lemma applet_ok_constructor: "applet_ok (constructor t h i)"
  by (simp add: applet_ok_def constructor_def set_ping_val_def set_applet_label_def set_applet_tooltip_def)

lemma applet_ok_run: "applet_ok st \<Longrightarrow> applet_ok (run es st)"
proof (induction es rule: rev_induct)
  case Nil
  then show ?case by (simp add: run_def)
next
  case (snoc e es)
  then show ?case using applet_ok_step [of "run es st" e] by (simp add: run_def)
qed

lemma filter_at_most_one:
  "distinct xs \<Longrightarrow> (\<And>x. x \<in> set xs \<Longrightarrow> P x \<Longrightarrow> x = a) \<Longrightarrow> length (filter P xs) \<le> 1"
proof -
  assume d: "distinct xs" and a: "\<And>x. x \<in> set xs \<Longrightarrow> P x \<Longrightarrow> x = a"
  have "set (filter P xs) \<subseteq> {a}" using a by auto
  moreover have "distinct (filter P xs)" using d by simp
  ultimately have "card (set (filter P xs)) \<le> card {a}" by (intro card_mono) auto
  moreover have "card (set (filter P xs)) = length (filter P xs)"
    using \<open>distinct (filter P xs)\<close> by (rule distinct_card)
  ultimately show ?thesis by simp
qed

text \<open>
  Every generator of the applet, in every state that the applet reaches, is a run of
  \<^verbatim>\<open>ping\<close>: what is proved of \<open>ping_run\<close> holds of every session of the applet.
\<close>

lemma is_run_feed: "is_run g \<Longrightarrow> is_run (feed x g)"
proof -
  assume "is_run g"
  then obtain h i ins where "g = ping_run h i ins" by (auto simp: is_run_def)
  then have "feed x g = ping_run h i (ins @ [x])" by (simp add: ping_run_def)
  then show ?thesis unfolding is_run_def by blast
qed

lemma is_run_new: "is_run (fst (request Next (ping h i)))"
proof -
  have "fst (request Next (ping h i)) = ping_run h i [Req Next]" by (simp add: ping_run_def)
  then show ?thesis unfolding is_run_def by blast
qed

lemma all_runs_fields: "all_runs st \<Longrightarrow> gens st' = gens st \<Longrightarrow> all_runs st'"
  by (simp add: all_runs_def)

lemma all_runs_update:
  assumes "all_runs st" "gens st' = (gens st)[s := feed x (gens st ! s)]"
  shows "all_runs st'"
proof (cases "s < length (gens st)")
  case False
  then show ?thesis using assms by (simp add: all_runs_def list_update_beyond)
next
  case True
  then have "is_run (feed x (gens st ! s))" using assms(1) by (simp add: all_runs_def is_run_feed)
  moreover have "set (gens st') \<subseteq> insert (feed x (gens st ! s)) (set (gens st))"
    using assms(2) by (simp add: set_update_subset_insert)
  ultimately show ?thesis using assms(1) by (auto simp: all_runs_def)
qed

lemma all_runs_start: "all_runs st \<Longrightarrow> all_runs (start st)"
  by (cases "ping' st") (auto simp: start_def all_runs_def is_run_new)

lemma all_runs_async_update: "all_runs st \<Longrightarrow> all_runs (async_update s r st)"
proof (cases r)
  case (Value v)
  assume a: "all_runs st"
  show ?thesis
    by (rule all_runs_update [OF a, where s = s and x = "Req Next"])
       (simp add: Value async_update_def set_ping_val_def set_applet_label_def)
next
  case Finished
  assume "all_runs st" then show ?thesis
    by (rule all_runs_fields) (simp add: Finished async_update_def)
next
  case Raised
  assume "all_runs st" then show ?thesis
    by (rule all_runs_fields) (simp add: Raised async_update_def)
qed

lemma all_runs_starts:
  "all_runs st \<Longrightarrow> all_runs (foldl (\<lambda>st c. if then_start c then start st else st) st cs)"
proof (induction cs arbitrary: st)
  case Nil
  then show ?case by simp
next
  case (Cons c cs)
  have "all_runs (if then_start c then start st else st)"
    using Cons.prems by (simp add: all_runs_start)
  then show ?case using Cons.IH by simp
qed

lemma all_runs_stop_settled: "all_runs st \<Longrightarrow> all_runs (stop_settled s r st)"
  unfolding stop_settled_def Let_def
  by (rule all_runs_starts) (erule all_runs_fields, simp)

lemma all_runs_deliver: "all_runs st \<Longrightarrow> all_runs (deliver s outs st)"
  by (induction s outs st rule: deliver.induct)
     (simp_all add: all_runs_async_update all_runs_stop_settled)

lemma all_runs_stop: "all_runs st \<Longrightarrow> all_runs (stop st)"
proof (cases "ping' st")
  case None
  assume "all_runs st"
  then show ?thesis by (rule all_runs_fields) (simp add: stop_def None)
next
  case (Some s)
  assume a: "all_runs st"
  let ?st = "st\<lparr>ping' := None, gens := (gens st)[s := fst (request Return (gens st ! s))],
                 stoppedPromise := ReturnOf s,
                 calls := calls st @
                   [\<lparr>awaits = ReturnOf s, catches = True, then_start = False, status = None\<rparr>]\<rparr>"
  have "all_runs ?st"
    by (rule all_runs_update [OF a, where s = s and x = "Req Return"]) simp
  then have "all_runs (deliver s (snd (request Return (gens st ! s))) ?st)"
    by (rule all_runs_deliver)
  then show ?thesis by (simp add: stop_def Some split_beta)
qed

lemma all_runs_on_settings_changed: "all_runs st \<Longrightarrow> all_runs (on_settings_changed st)"
proof -
  assume a: "all_runs st"
  let ?st = "set_applet_tooltip (case host st of None \<Rightarrow> [] | Some x \<Rightarrow> x) st"
  have 1: "all_runs ?st"
    using a by (rule all_runs_fields) (simp add: set_applet_tooltip_def)
  have 2: "all_runs (?st\<lparr>logged := logged ?st @ l\<rparr>)" for l
    using 1 by (rule all_runs_fields) simp
  let ?st1 = "stop (?st\<lparr>logged := logged ?st @ [LogRestarting]\<rparr>)"
  have 3: "all_runs ?st1" using 2 by (rule all_runs_stop)
  have 4: "all_runs (?st1\<lparr>calls := cs\<rparr>)" for cs
    using 3 by (rule all_runs_fields) simp
  show ?thesis
    unfolding on_settings_changed_def Let_def
    using 1 2 3 4 by (auto simp: all_runs_start)
qed

lemma all_runs_step: "all_runs st \<Longrightarrow> all_runs (step e st)"
proof (cases e)
  case AddedToPanel
  assume a: "all_runs st"
  have "all_runs (st\<lparr>is_in_panel := True\<rparr>)"
    using a by (rule all_runs_fields) simp
  then show ?thesis by (simp add: AddedToPanel on_applet_added_to_panel_def all_runs_start)
next
  case RemovedFromPanel
  assume a: "all_runs st"
  have "all_runs (st\<lparr>is_in_panel := False\<rparr>)"
    using a by (rule all_runs_fields) simp
  then show ?thesis by (simp add: RemovedFromPanel on_applet_removed_from_panel_def all_runs_stop)
next
  case (SettingsChanged t h i)
  assume a: "all_runs st"
  have "all_runs (st\<lparr>title := t, host := h, interval := i\<rparr>)"
    using a by (rule all_runs_fields) simp
  then show ?thesis by (simp add: SettingsChanged all_runs_on_settings_changed)
next
  case (Env s r)
  assume a: "all_runs st"
  have "all_runs (st\<lparr>gens := (gens st)[s := fst (resume r (gens st ! s))]\<rparr>)"
    by (rule all_runs_update [OF a, where s = s and x = "Res r"]) simp
  then have "all_runs (deliver s (snd (resume r (gens st ! s)))
               (st\<lparr>gens := (gens st)[s := fst (resume r (gens st ! s))]\<rparr>))"
    by (rule all_runs_deliver)
  then show ?thesis using a by (simp add: Env split_beta)
qed

lemma all_runs_run: "all_runs st \<Longrightarrow> all_runs (run es st)"
proof (induction es rule: rev_induct)
  case Nil
  then show ?case by (simp add: run_def)
next
  case (snoc e es)
  then show ?case using all_runs_step [of "run es st" e] by (simp add: run_def)
qed

lemma sessions_are_runs:
  "s < length (gens (run es (constructor t h i))) \<Longrightarrow>
   \<exists>h' i' ins. gens (run es (constructor t h i)) ! s = ping_run h' i' ins"
proof -
  have "all_runs (constructor t h i)"
    by (simp add: all_runs_def constructor_def set_ping_val_def set_applet_label_def set_applet_tooltip_def)
  then have "all_runs (run es (constructor t h i))" by (rule all_runs_run)
  moreover assume "s < length (gens (run es (constructor t h i)))"
  ultimately show ?thesis by (auto simp: all_runs_def is_run_def)
qed

text \<open>
  What does hold in every state that the applet reaches: a session that is not finished
  and has no \<^verbatim>\<open>return()\<close> request is the one in \<^verbatim>\<open>_ping\<close>, so there is at most one such
  session; the generator in \<^verbatim>\<open>_ping\<close> exists; and with a generator in \<^verbatim>\<open>_ping\<close>,
  \<^verbatim>\<open>_start\<close> changes nothing.
\<close>

lemma stopping_or_in_slot:
  "length (filter (\<lambda>s. Return \<notin> set (queue (gens (run es (constructor t h i)) ! s)))
             (active_sessions (run es (constructor t h i)))) \<le> 1
   \<and> (\<forall>s. ping' (run es (constructor t h i)) = Some s \<longrightarrow> s < length (gens (run es (constructor t h i))))
   \<and> (ping' st \<noteq> None \<longrightarrow> start st = st \<and> on_applet_added_to_panel st = st\<lparr>is_in_panel := True\<rparr>)"
proof -
  let ?st = "run es (constructor t h i)"
  have ok: "applet_ok ?st" by (rule applet_ok_run) (rule applet_ok_constructor)
  have 1: "length (filter (\<lambda>s. Return \<notin> set (queue (gens ?st ! s))) (active_sessions ?st)) \<le> 1"
  proof (rule filter_at_most_one [where a = "the (ping' ?st)"])
    show "distinct (active_sessions ?st)" by (simp add: active_sessions_def)
  next
    fix x assume "x \<in> set (active_sessions ?st)" "Return \<notin> set (queue (gens ?st ! x))"
    then have "ping' ?st = Some x"
      using ok by (auto simp: active_sessions_def active_def applet_ok_def)
    then show "x = the (ping' ?st)" by simp
  qed
  have 2: "\<forall>s. ping' ?st = Some s \<longrightarrow> s < length (gens ?st)"
    using ok by (simp add: applet_ok_def)
  have 3: "ping' st \<noteq> None \<longrightarrow> start st = st \<and> on_applet_added_to_panel st = st\<lparr>is_in_panel := True\<rparr>"
    by (auto simp: start_def on_applet_added_to_panel_def)
  from 1 2 3 show ?thesis by blast
qed

text \<open>
  Claim C3 does not hold of the code. \<^verbatim>\<open>_stop\<close> sets \<^verbatim>\<open>_ping\<close> to null before the old
  generator has shut its process down, and \<^verbatim>\<open>_start\<close> tests nothing but \<^verbatim>\<open>_ping\<close>. When
  the applet is removed from the panel and added again before the old generator has
  read its next line, two sessions are active; the old process has not been signalled.
  The same happens when the settings change twice: the second call of
  \<^verbatim>\<open>on_settings_changed\<close> logs that ping is not running and starts a second process
  while the first call still awaits \<^verbatim>\<open>_stop()\<close>; a line of the old process then
  overwrites the label of the new one.
\<close>

theorem overlapping_sessions:
  "active_sessions removed_and_added = [0, 1] \<and>
   map phase (gens removed_and_added) = [AwaitRead, AwaitRead] \<and>
   map (\<lambda>g. filter is_signal (trace g)) (gens removed_and_added) = [[], []] \<and>
   ping' removed_and_added = Some 1 \<and>
   active_sessions settings_changed_twice = [0, 1] \<and>
   map args (gens settings_changed_twice) = [(Some ''1.1.1.1'', 5), (Some ''9.9.9.9'', 5)] \<and>
   logged settings_changed_twice = [LogRestarting, LogStarting] \<and>
   forwarded (run [Env 1 (Line ''64 bytes from 9.9.9.9: icmp_seq=1 ttl=59 time=7.5 ms''),
                   Env 0 (Line sample_line)] settings_changed_twice)
     = [(1, Some ''7.5''), (0, Some ''12.3'')] \<and>
   label (run [Env 1 (Line ''64 bytes from 9.9.9.9: icmp_seq=1 ttl=59 time=7.5 ms''),
               Env 0 (Line sample_line)] settings_changed_twice) = ''12.3 ms''"
  by code_simp

text \<open>
  Claim C9, as amended. In every state that the applet reaches, when a generator that
  awaits a line gets one, the sample is forwarded and the label becomes: the title and a
  space if the title is not empty, then the value and \<^verbatim>\<open> ms\<close> for a resolved sample, or
  \<^verbatim>\<open>N/A\<close> for an unresolved one.
\<close>

theorem forwarded_sample_label:
  "s < length (gens (run es (constructor t h i))) \<and>
   phase (gens (run es (constructor t h i)) ! s) = AwaitRead \<longrightarrow>
     label (step (Env s (Line l)) (run es (constructor t h i))) =
       (case title (run es (constructor t h i)) of None \<Rightarrow> [] | Some x \<Rightarrow> if x = [] then [] else x @ '' '') @
       (case line_parser l of Some v \<Rightarrow> v @ '' ms'' | None \<Rightarrow> ''N/A'') \<and>
     forwarded (step (Env s (Line l)) (run es (constructor t h i))) =
       forwarded (run es (constructor t h i)) @ [(s, line_parser l)]"
proof (intro impI, elim conjE)
  let ?st = "run es (constructor t h i)"
  assume s: "s < length (gens ?st)" and p: "phase (gens ?st ! s) = AwaitRead"
  have "applet_ok ?st" by (rule applet_ok_run) (rule applet_ok_constructor)
  then have "queue_ok (gens ?st ! s)" using s by (simp add: applet_ok_def)
  then obtain rs where q: "queue (gens ?st ! s) = Next # rs"
    using p by (cases "queue (gens ?st ! s)") (auto simp: queue_ok_def)
  show "label (step (Env s (Line l)) ?st) =
       (case title ?st of None \<Rightarrow> [] | Some x \<Rightarrow> if x = [] then [] else x @ '' '') @
       (case line_parser l of Some v \<Rightarrow> v @ '' ms'' | None \<Rightarrow> ''N/A'') \<and>
     forwarded (step (Env s (Line l)) ?st) = forwarded ?st @ [(s, line_parser l)]"
    using s p q
    by (auto simp: resume_def yield_def async_update_def set_ping_val_def set_applet_label_def
          read_line_def finalizer_def Let_def split: list.splits request.splits)
qed

theorem forwarded_sample_label_witness:
  "label (step (Env 0 (Line sample_line)) (run [AddedToPanel] (constructor None (Some ''1.1.1.1'') 5)))
     = ''12.3 ms''
   \<and> label (step (Env 0 (Line ''Request timeout for icmp_seq 3''))
        (run [AddedToPanel] (constructor (Some ''Ping'') (Some ''1.1.1.1'') 5)))
     = ''Ping N/A''"
proof -
  have a: "0 < length (gens (run [AddedToPanel] (constructor None (Some ''1.1.1.1'') 5)))"
    "phase (gens (run [AddedToPanel] (constructor None (Some ''1.1.1.1'') 5)) ! 0) = AwaitRead"
    "title (run [AddedToPanel] (constructor None (Some ''1.1.1.1'') 5)) = None"
    "line_parser sample_line = Some ''12.3''"
    by code_simp+
  have b: "0 < length (gens (run [AddedToPanel] (constructor (Some ''Ping'') (Some ''1.1.1.1'') 5)))"
    "phase (gens (run [AddedToPanel] (constructor (Some ''Ping'') (Some ''1.1.1.1'') 5)) ! 0) = AwaitRead"
    "title (run [AddedToPanel] (constructor (Some ''Ping'') (Some ''1.1.1.1'') 5)) = Some ''Ping''"
    "line_parser ''Request timeout for icmp_seq 3'' = None"
    by code_simp+
  from forwarded_sample_label [of 0 "[AddedToPanel]" None "Some ''1.1.1.1''" 5 sample_line] a
  have 1: "label (step (Env 0 (Line sample_line)) (run [AddedToPanel] (constructor None (Some ''1.1.1.1'') 5)))
     = ''12.3 ms''"
    by simp
  from forwarded_sample_label
    [of 0 "[AddedToPanel]" "Some ''Ping''" "Some ''1.1.1.1''" 5 "''Request timeout for icmp_seq 3''"] b
  have 2: "label (step (Env 0 (Line ''Request timeout for icmp_seq 3''))
        (run [AddedToPanel] (constructor (Some ''Ping'') (Some ''1.1.1.1'') 5)))
     = ''Ping N/A''"
    by simp
  from 1 2 show ?thesis by blast
qed

text \<open>
  The claim as stated fails for an unresolved sample under a title: the label has a
  space between the title and \<^verbatim>\<open>N/A\<close>.
\<close>

theorem unresolved_label_counterexample:
  "label (step (Env 0 (Line ''Request timeout for icmp_seq 3''))
     (run [AddedToPanel] (constructor (Some ''Ping'') (Some ''1.1.1.1'') 5)))
   \<noteq> spec_label (Some ''Ping'') (line_parser ''Request timeout for icmp_seq 3'')"
  by code_simp

text \<open>
  Claim C10, as amended. Right after construction the label is what
  \<^verbatim>\<open>_set_ping_val(null)\<close> shows: \<^verbatim>\<open>N/A\<close>, after the title and a space when there is a
  title; the tooltip is the host, or empty when the host is null; no generator exists;
  and a call of \<^verbatim>\<open>_stop\<close> in this state awaits the promise that the constructor
  resolved, so it ends at once, normally, and changes nothing else.
\<close>

theorem constructed_state:
  "label (constructor t h i) = label (set_ping_val None (constructor t h i)) \<and>
   label (constructor t h i) =
     (case t of None \<Rightarrow> [] | Some x \<Rightarrow> if x = [] then [] else x @ '' '') @ ''N/A'' \<and>
   label (constructor None h i) = ''N/A'' \<and>
   tooltip (constructor t h i) = (case h of None \<Rightarrow> [] | Some x \<Rightarrow> x) \<and>
   gens (constructor t h i) = [] \<and>
   stop (constructor t h i) =
     (constructor t h i)
       \<lparr>calls := [\<lparr>awaits = Resolved, catches = False, then_start = False, status = Some Fulfilled\<rparr>]\<rparr>"
  by (simp add: constructor_def set_ping_val_def set_applet_label_def set_applet_tooltip_def
        stop_def promise_state_def)

theorem constructed_state_witness:
  "label (constructor None None 5) = ''N/A'' \<and> tooltip (constructor None None 5) = [] \<and>
   label (constructor (Some ''Ping'') (Some ''1.1.1.1'') 5) = ''Ping N/A'' \<and>
   tooltip (constructor (Some ''Ping'') (Some ''1.1.1.1'') 5) = ''1.1.1.1'' \<and>
   map status (calls (stop (constructor None None 5))) = [Some Fulfilled]"
proof -
  from constructed_state [of None None 5, THEN conjunct2]
  have 1: "label (constructor None None 5) = ''N/A''" "tooltip (constructor None None 5) = []"
    "stop (constructor None None 5) = (constructor None None 5)
       \<lparr>calls := [\<lparr>awaits = Resolved, catches = False, then_start = False, status = Some Fulfilled\<rparr>]\<rparr>"
    by simp_all
  from constructed_state [of "Some ''Ping''" "Some ''1.1.1.1''" 5, THEN conjunct2]
  have 2: "label (constructor (Some ''Ping'') (Some ''1.1.1.1'') 5) = ''Ping N/A''"
    "tooltip (constructor (Some ''Ping'') (Some ''1.1.1.1'') 5) = ''1.1.1.1''"
    by simp_all
  from 1 2 show ?thesis by simp
qed

text \<open>
  The claim as stated fails under a title: the first label has a space between the title
  and \<^verbatim>\<open>N/A\<close>.
\<close>

theorem constructed_label_counterexample:
  "label (constructor (Some ''Ping'') (Some ''1.1.1.1'') 5) \<noteq> spec_label (Some ''Ping'') None"
  by code_simp

section \<open>Stopping while the generator waits for a line\<close>

text \<open>
  A \<^verbatim>\<open>return()\<close> on a generator that awaits a line changes nothing but the queue: the
  phase and the trace stay as they are, and no request is answered.
\<close>

lemma return_while_reading:
  "phase g = AwaitRead \<Longrightarrow> request Return g = (g\<lparr>queue := queue g @ [Return]\<rparr>, [])"
  by (simp add: request_def)

text \<open>
  Claim C7 does not hold of the code. \<^verbatim>\<open>_stop\<close> calls \<^verbatim>\<open>return()\<close> while the generator
  awaits \<^verbatim>\<open>read_line_async\<close>: the request is queued, the read stays pending and
  \<^verbatim>\<open>readCancellable\<close> is not cancelled; the call of \<^verbatim>\<open>_stop\<close> is pending too. The
  \<^verbatim>\<open>finally\<close> block cancels the read only after the next line has arrived and has been
  yielded.
\<close>

theorem return_leaves_read_pending:
  "phase (gens stop_called ! 0) = AwaitRead \<and>
   queue (gens stop_called ! 0) = [Next, Return] \<and>
   trace (gens stop_called ! 0) = [Spawn (Some ''1.1.1.1'') 5, ReadLineAsync] \<and>
   map status (calls stop_called) = [None] \<and>
   trace (gens (step (Env 0 (Line sample_line)) stop_called) ! 0) =
     [Spawn (Some ''1.1.1.1'') 5, ReadLineAsync, Got (Line sample_line), Log (LogLine sample_line),
      Yield (Some ''12.3''), CancelRead, CloseAsync]"
  by code_simp

text \<open>
  Claim C5 does not hold of the code, for the same reason: after \<^verbatim>\<open>_stop\<close> was called
  and has set \<^verbatim>\<open>_ping\<close> to null, the next line of the old process is still forwarded to
  the label.
\<close>

theorem sample_forwarded_after_stop:
  "ping' stop_called = None \<and> label stop_called = ''N/A'' \<and> forwarded stop_called = [] \<and>
   label (step (Env 0 (Line sample_line)) stop_called) = ''12.3 ms'' \<and>
   forwarded (step (Env 0 (Line sample_line)) stop_called) = [(0, Some ''12.3'')]"
  by code_simp

text \<open>
  Claim C2 does not hold of the code when the shutdown raises an error. Of two calls of
  \<^verbatim>\<open>_stop\<close> that await the same promise, the first catches the error and ends normally,
  the second ends with the error. One \<^verbatim>\<open>SIGTERM\<close> was sent. When the process exits in
  time, both calls end normally.
\<close>

theorem second_stop_rejected:
  "map awaits (calls stop_called_twice) = [ReturnOf 0, ReturnOf 0] \<and>
   map status (calls stop_called_twice) = [None, None] \<and>
   map status (calls (run [Env 0 (Line sample_line), Env 0 (Closed (Some 42)), Env 0 (Waited WaitError)]
     stop_called_twice)) = [Some Fulfilled, Some Rejected] \<and>
   filter is_signal (trace (gens (run [Env 0 (Line sample_line), Env 0 (Closed (Some 42)),
     Env 0 (Waited WaitError)] stop_called_twice) ! 0)) = [SendSignal 15] \<and>
   map status (calls (run [Env 0 (Line sample_line), Env 0 (Closed (Some 42)), Env 0 (Waited Exited)]
     stop_called_twice)) = [Some Fulfilled, Some Fulfilled]"
  by code_simp

end
